theory Spec2Isabelle
  imports Main "HOL-Library.Word" "HOL-Library.Multiset"
begin

unbundle bit_operations_syntax

section \<open>Data model of client.go\<close>

text \<open>
  \<open>net.IP\<close> is a byte slice; the nil slice is the empty list. \<open>net.IPAddr\<close> and
  \<open>net.UDPAddr\<close> are the two address structs of package net that the client reads.
\<close>

type_synonym IP = "8 word list"

record IPAddr =
  IP :: IP
  Zone :: string

record UDPAddr =
  udpIP :: IP
  udpPort :: int
  udpZone :: string

text \<open>
  \<open>ServiceEntry\<close> (client.go, lines 21-36). \<open>AddrV6IPAddr\<close> is a pointer to a
  \<open>net.IPAddr\<close> that is allocated where it is assigned and reachable only through this
  field, so it is kept by value, with \<open>None\<close> for nil.
\<close>

record ServiceEntry =
  Name :: string
  Host :: string
  AddrV4 :: IP
  AddrV6 :: IP
  AddrV6IPAddr :: "IPAddr option"
  Port :: int
  Info :: string
  InfoFields :: "string list"
  SrcIP :: IP
  Addr :: IP
  hasTXT :: bool
  sent :: bool

text \<open>\<open>complete\<close> (lines 39-42): the stricter check is commented out in the source.\<close>

definition complete :: "ServiceEntry \<Rightarrow> bool" where
  "complete s = True"

text \<open>
  The resource records of the DNS codec that the type switch of \<open>query\<close> tells apart,
  with the fields it reads: \<open>PTR Hdr.Name Ptr\<close>, \<open>SRV Hdr.Name Target Port\<close>,
  \<open>TXT Hdr.Name Txt\<close>, \<open>A Hdr.Name A\<close>, \<open>AAAA Hdr.Name AAAA\<close>; \<open>OtherRR\<close> is any
  record kind the switch has no case for.
\<close>

datatype RR =
    PTR string string
  | SRV string string "16 word"
  | TXT string "string list"
  | A string IP
  | AAAA string IP
  | OtherRR string

record Question =
  qName :: string
  Qtype :: "16 word"
  Qclass :: "16 word"

record Msg =
  RecursionDesired :: bool
  Question :: "Question list"
  Answer :: "RR list"
  Extra :: "RR list"

text \<open>\<open>msgAddr\<close> (lines 261-264).\<close>

record msgAddr =
  msg :: Msg
  src :: UDPAddr

section \<open>Functions of the Go standard library used by the correlator\<close>

text \<open>
  \<open>strings.Join\<close>, and \<open>IP.To4\<close>, \<open>IP.IsLinkLocalUnicast\<close> and
  \<open>IP.IsLinkLocalMulticast\<close> of package net, written after the standard library.
\<close>

fun Join :: "string list \<Rightarrow> string \<Rightarrow> string" where
  "Join [] sep = []"
| "Join [x] sep = x"
| "Join (x # y # ys) sep = x @ sep @ Join (y # ys) sep"

definition To4 :: "IP \<Rightarrow> IP" where
  "To4 ip =
     (if length ip = 4 then ip
      else if length ip = 16 \<and> take 10 ip = replicate 10 0 \<and> ip ! 10 = 0xff \<and> ip ! 11 = 0xff
      then drop 12 ip
      else [])"

definition IsLinkLocalUnicast :: "IP \<Rightarrow> bool" where
  "IsLinkLocalUnicast ip =
     (let ip4 = To4 ip in
      if ip4 \<noteq> [] then ip4 ! 0 = 169 \<and> ip4 ! 1 = 254
      else length ip = 16 \<and> ip ! 0 = 0xfe \<and> (ip ! 1) AND 0xc0 = 0x80)"

definition IsLinkLocalMulticast :: "IP \<Rightarrow> bool" where
  "IsLinkLocalMulticast ip =
     (let ip4 = To4 ip in
      if ip4 \<noteq> [] then ip4 ! 0 = 224 \<and> ip4 ! 1 = 0 \<and> ip4 ! 2 = 0
      else length ip = 16 \<and> ip ! 0 = 0xff \<and> (ip ! 1) AND 0x0f = 0x02)"

section \<open>The in-progress table\<close>

text \<open>
  \<open>inprogress\<close> is a \<open>map[string]*ServiceEntry\<close>: two keys may hold the same pointer.
  The entries therefore live in an explicit store: \<open>heap\<close> lists the \<open>ServiceEntry\<close>
  objects allocated so far, a pointer is the index of its object, and allocation appends.
  \<open>respChan\<close> records the pointers the consumer has received on the output channel and
  \<open>wire\<close> the queries written to the sockets, both in order.
\<close>

datatype conn = UDPConn nat

record corr =
  inprogress :: "string \<rightharpoonup> nat"
  heap :: "ServiceEntry list"
  respChan :: "nat list"
  wire :: "(conn \<times> Msg) list"

definition zeroEntry :: ServiceEntry where
  "zeroEntry = \<lparr>Name = [], Host = [], AddrV4 = [], AddrV6 = [], AddrV6IPAddr = None,
     Port = 0, Info = [], InfoFields = [], SrcIP = [], Addr = [], hasTXT = False,
     sent = False\<rparr>"

text \<open>Assignment through a pointer: \<open>inp.f = v\<close> is \<open>store inp (\<lambda>e. e\<lparr>f := v\<rparr>)\<close>.\<close>

definition store :: "nat \<Rightarrow> (ServiceEntry \<Rightarrow> ServiceEntry) \<Rightarrow> corr \<Rightarrow> corr" where
  "store inp f s = s\<lparr>heap := (heap s)[inp := f (heap s ! inp)]\<rparr>"

text \<open>\<open>ensureName\<close> (lines 431-440) and \<open>alias\<close> (lines 443-446, here \<open>alias_to\<close>).\<close>

definition ensureName :: "string \<Rightarrow> corr \<Rightarrow> nat \<times> corr" where
  "ensureName name s =
     (case inprogress s name of
        Some inp \<Rightarrow> (inp, s)
      | None \<Rightarrow>
          (let inp = length (heap s)
           in (inp, s\<lparr>heap := heap s @ [zeroEntry\<lparr>Name := name\<rparr>],
                       inprogress := (inprogress s)(name \<mapsto> inp)\<rparr>)))"

definition alias_to :: "string \<Rightarrow> string \<Rightarrow> corr \<Rightarrow> corr" where
  "alias_to srcn dst s =
     (let (srcEntry, s1) = ensureName srcn s
      in s1\<lparr>inprogress := (inprogress s1)(dst \<mapsto> srcEntry)\<rparr>)"

text \<open>
  The body of the record loop of \<open>query\<close> (lines 297-342): the type switch on one
  answer. The loop variable \<open>inp\<close> is nil (\<open>None\<close>) until a case assigns it; \<open>addr\<close> is
  \<open>resp.src\<close>.
\<close>

fun handle_answer :: "UDPAddr \<Rightarrow> RR \<Rightarrow> nat option \<times> corr \<Rightarrow> nat option \<times> corr" where
  "handle_answer addr (PTR name ptr) (inp, s) =
     (let (p, s1) = ensureName ptr s in (Some p, s1))"
| "handle_answer addr (SRV name target port) (inp, s) =
     (let s1 = (if target \<noteq> name then alias_to name target s else s);
          (p, s2) = ensureName name s1;
          s3 = store p (\<lambda>e. e\<lparr>Host := target\<rparr>) s2;
          s4 = store p (\<lambda>e. e\<lparr>Port := uint port\<rparr>) s3
      in (Some p, s4))"
| "handle_answer addr (TXT name txt) (inp, s) =
     (let (p, s1) = ensureName name s;
          s2 = store p (\<lambda>e. e\<lparr>Info := Join txt ''|''\<rparr>) s1;
          s3 = store p (\<lambda>e. e\<lparr>InfoFields := txt\<rparr>) s2;
          s4 = store p (\<lambda>e. e\<lparr>hasTXT := True\<rparr>) s3
      in (Some p, s4))"
| "handle_answer addr (A name ip) (inp, s) =
     (let (p, s1) = ensureName name s;
          s2 = store p (\<lambda>e. e\<lparr>Addr := ip\<rparr>) s1;
          s3 = store p (\<lambda>e. e\<lparr>AddrV4 := ip\<rparr>) s2
      in (Some p, s3))"
| "handle_answer addr (AAAA name ip) (inp, s) =
     (let (p, s1) = ensureName name s;
          s2 = store p (\<lambda>e. e\<lparr>Addr := ip\<rparr>) s1;
          s3 = store p (\<lambda>e. e\<lparr>AddrV6 := ip\<rparr>) s2;
          s4 = store p (\<lambda>e. e\<lparr>AddrV6IPAddr := Some \<lparr>IP = ip, Zone = []\<rparr>\<rparr>) s3;
          s5 = (if IsLinkLocalUnicast ip \<or> IsLinkLocalMulticast ip
                then store p (\<lambda>e. e\<lparr>AddrV6IPAddr :=
                       map_option (\<lambda>a. a\<lparr>Zone := udpZone addr\<rparr>) (AddrV6IPAddr e)\<rparr>) s4
                else s4)
      in (Some p, s5))"
| "handle_answer addr (OtherRR name) (inp, s) = (inp, s)"

definition handle_answers :: "UDPAddr \<Rightarrow> RR list \<Rightarrow> nat option \<times> corr \<Rightarrow> nat option \<times> corr" where
  "handle_answers addr rrs st = foldl (\<lambda>acc rr. handle_answer addr rr acc) st rrs"

text \<open>A table is well formed when every pointer it holds is an allocated object.\<close>

definition wellformed :: "corr \<Rightarrow> bool" where
  "wellformed s = (ran (inprogress s) \<subseteq> {..<length (heap s)})"

definition lookup :: "corr \<Rightarrow> string \<Rightarrow> ServiceEntry option" where
  "lookup s name = map_option (\<lambda>p. heap s ! p) (inprogress s name)"

section \<open>Parameters, client and external collaborators\<close>

text \<open>
  \<open>time.Duration\<close> counts nanoseconds. \<open>QueryParam\<close> (lines 45-55) with the fields
  that are values; \<open>Interface\<close>, \<open>Entries\<close> and \<open>Logger\<close> are a pointer, a channel
  and a logger that no function of client.go reads from a \<open>QueryParam\<close>.
\<close>

type_synonym Duration = int

definition Second :: Duration where
  "Second = 1000000000"

record QueryParam =
  Service :: string
  Domain :: string
  Timeout :: Duration
  WantUnicastResponse :: bool
  DisableIPv4 :: bool
  DisableIPv6 :: bool

definition DefaultParams :: "string \<Rightarrow> QueryParam" where
  "DefaultParams service = \<lparr>Service = service, Domain = ''local'', Timeout = Second,
     WantUnicastResponse = False, DisableIPv4 = False, DisableIPv6 = False\<rparr>"

text \<open>
  \<open>Client\<close> (lines 107-123); a \<open>*net.UDPConn\<close> is \<open>None\<close> when nil. The channels
  \<open>closedCh\<close> and \<open>MsgChan\<close> and the logger are left out: what is received from
  \<open>MsgChan\<close> is an input of the loop below, and log output is not modelled.
\<close>

record Client =
  use_ipv4 :: bool
  use_ipv6 :: bool
  ipv4UnicastConn :: "conn option"
  ipv6UnicastConn :: "conn option"
  ipv4MulticastConn :: "conn option"
  ipv6MulticastConn :: "conn option"
  closed :: "32 word"

text \<open>
  What the client calls and does not define is a parameter of the model. \<open>trimDot\<close> is
  a helper of the package declared outside client.go; \<open>Pack\<close> is the codec's
  serialiser and yields the error it returns, if any; \<open>ListenUDP\<close> and
  \<open>ListenMulticastUDP\<close> yield the socket bound for a network name, \<open>None\<close> when the
  call returns an error (and with it a nil socket); \<open>WriteToUDP\<close> and
  \<open>SetMulticastInterface\<close> yield the error of the call on an open socket, if any.
  \<open>ipv4Addr\<close> and \<open>ipv6Addr\<close> are the package's two multicast group addresses.
\<close>

type_synonym error = string

datatype group = ipv4Addr | ipv6Addr

record Env =
  trimDot :: "string \<Rightarrow> string"
  Pack :: "Msg \<Rightarrow> error option"
  ListenUDP :: "string \<Rightarrow> conn option"
  ListenMulticastUDP :: "string \<Rightarrow> conn option"
  WriteToUDP :: "conn \<Rightarrow> Msg \<Rightarrow> group \<Rightarrow> error option"
  SetMulticastInterface :: "conn \<Rightarrow> error option"

text \<open>\<open>new(dns.Msg)\<close> and \<open>Msg.SetQuestion\<close> of the codec, with its constants.\<close>

definition newMsg :: Msg where
  "newMsg = \<lparr>RecursionDesired = False, Question = [], Answer = [], Extra = []\<rparr>"

definition TypePTR :: "16 word" where
  "TypePTR = 12"

definition ClassINET :: "16 word" where
  "ClassINET = 1"

definition SetQuestion :: "string \<Rightarrow> 16 word \<Rightarrow> Msg \<Rightarrow> Msg" where
  "SetQuestion z t m =
     m\<lparr>RecursionDesired := True, Question := [\<lparr>qName = z, Qtype = t, Qclass = ClassINET\<rparr>]\<rparr>"

section \<open>Sending a query\<close>

text \<open>
  \<open>sendQuery\<close> (lines 375-393). A write that succeeds is appended to \<open>wire\<close>; the state
  is the correlator's only because \<open>query\<close> calls \<open>sendQuery\<close> from inside its loop too.
\<close>

definition write_if_open :: "Env \<Rightarrow> conn option \<Rightarrow> Msg \<Rightarrow> group \<Rightarrow> corr \<Rightarrow> error option \<times> corr" where
  "write_if_open env l buf dst s =
     (case l of
        None \<Rightarrow> (None, s)
      | Some u \<Rightarrow>
          (case WriteToUDP env u buf dst of
             Some err \<Rightarrow> (Some err, s)
           | None \<Rightarrow> (None, s\<lparr>wire := wire s @ [(u, buf)]\<rparr>)))"

definition sendQuery :: "Env \<Rightarrow> Client \<Rightarrow> Msg \<Rightarrow> corr \<Rightarrow> error option \<times> corr" where
  "sendQuery env c q s =
     (case Pack env q of
        Some err \<Rightarrow> (Some err, s)
      | None \<Rightarrow>
          (case write_if_open env (ipv4UnicastConn c) q ipv4Addr s of
             (Some err, s1) \<Rightarrow> (Some err, s1)
           | (None, s1) \<Rightarrow>
               (case write_if_open env (ipv6UnicastConn c) q ipv6Addr s1 of
                  (Some err, s2) \<Rightarrow> (Some err, s2)
                | (None, s2) \<Rightarrow> (None, s2))))"

text \<open>The dispatch loop of \<open>query\<close> (lines 269-286): one PTR question per parameter set.\<close>

definition build_query :: "Env \<Rightarrow> QueryParam \<Rightarrow> Msg" where
  "build_query env par =
     (let m = newMsg;
          serviceAddr = trimDot env (Service par) @ ''.'' @ trimDot env (Domain par) @ ''.'';
          m = SetQuestion serviceAddr TypePTR m;
          m = (if WantUnicastResponse par
               then m\<lparr>Question := (Question m)[0 := (Question m ! 0)
                      \<lparr>Qclass := Qclass (Question m ! 0) OR push_bit 15 1\<rparr>]\<rparr>
               else m);
          m = m\<lparr>RecursionDesired := False\<rparr>
      in m)"

fun send_queries :: "Env \<Rightarrow> Client \<Rightarrow> QueryParam list \<Rightarrow> corr \<Rightarrow> error option \<times> corr" where
  "send_queries env c [] s = (None, s)"
| "send_queries env c (par # rest) s =
     (case sendQuery env c (build_query env par) s of
        (Some err, s1) \<Rightarrow> (Some err, s1)
      | (None, s1) \<Rightarrow> send_queries env c rest s1)"

section \<open>The correlation loop\<close>

text \<open>
  One pass through \<open>case resp := <-c.MsgChan\<close> (lines 295-367). \<open>ready\<close> tells whether
  the consumer is receiving on \<open>respChan\<close> when the non-blocking send of lines 355-358
  is tried: the send happens if it is, and the \<open>default\<close> branch drops the entry if not.
  In the branch for an incomplete entry the error of \<open>sendQuery\<close> is logged and dropped.
\<close>

definition handle_resp :: "Env \<Rightarrow> Client \<Rightarrow> msgAddr \<Rightarrow> bool \<Rightarrow> corr \<Rightarrow> corr" where
  "handle_resp env c resp ready s =
     (let (inp, s1) = handle_answers (src resp) (Answer (msg resp) @ Extra (msg resp)) (None, s)
      in case inp of
           None \<Rightarrow> s1
         | Some p \<Rightarrow>
             (let s2 = store p (\<lambda>e. e\<lparr>SrcIP := udpIP (src resp)\<rparr>) s1
              in if complete (heap s2 ! p)
                 then if sent (heap s2 ! p) then s2
                      else (let s3 = store p (\<lambda>e. e\<lparr>sent := True\<rparr>) s2
                            in if ready then s3\<lparr>respChan := respChan s3 @ [p]\<rparr> else s3)
                 else (let m = SetQuestion (Name (heap s2 ! p)) TypePTR newMsg;
                           m = m\<lparr>RecursionDesired := False\<rparr>
                       in snd (sendQuery env c m s2))))"

text \<open>
  The \<open>select\<close> of the loop (lines 293-371) takes a message from \<open>c.MsgChan\<close> or the
  tick of the timer \<open>finish\<close>. A run of the loop is the list of the cases that the
  \<open>select\<close> is offered, each with the time elapsed since \<open>finish\<close> was armed by
  \<open>time.After\<close>: a message is always taken; the timer's channel delivers only once the
  timer's duration has elapsed, so an earlier look at it leaves the loop waiting.
  The loop is \<open>Listening\<close> as long as it has not returned.
\<close>

datatype select_case = FromMsgChan msgAddr bool | FromFinish

datatype outcome = Listening | Returned "error option"

fun listen :: "Env \<Rightarrow> Client \<Rightarrow> Duration \<Rightarrow> (Duration \<times> select_case) list \<Rightarrow> corr \<Rightarrow> outcome \<times> corr" where
  "listen env c finish [] s = (Listening, s)"
| "listen env c finish ((t, FromMsgChan resp ready) # rest) s =
     listen env c finish rest (handle_resp env c resp ready s)"
| "listen env c finish ((t, FromFinish) # rest) s =
     (if finish \<le> t then (Returned None, s) else listen env c finish rest s)"

text \<open>
  \<open>query\<close> (lines 267-372). The state starts with nothing written, nothing delivered
  and, from line 289, an empty table.
\<close>

definition newCorr :: corr where
  "newCorr = \<lparr>inprogress = Map.empty, heap = [], respChan = [], wire = []\<rparr>"

definition query :: "Env \<Rightarrow> Client \<Rightarrow> QueryParam list \<Rightarrow> (Duration \<times> select_case) list \<Rightarrow> outcome \<times> corr" where
  "query env c params run =
     (case send_queries env c params newCorr of
        (Some err, s) \<Rightarrow> (Returned (Some err), s)
      | (None, s) \<Rightarrow>
          (let finish = 2 * Second
           in listen env c finish run s))"

text \<open>
  \<open>QueryContext\<close> (lines 83-96). \<open>for _, par := range *params\<close> copies each element
  of the slice into the loop variable \<open>par\<close>; the body assigns to the fields of that
  copy and nothing stores the copy back. \<open>range_params\<close> takes the elements still to
  visit and the slice, and returns the slice after the loop. \<open>ctx\<close> is not used.
\<close>

definition set_defaults :: "QueryParam \<Rightarrow> QueryParam" where
  "set_defaults par =
     (let par = (if Domain par = [] then par\<lparr>Domain := ''local''\<rparr> else par);
          par = (if Timeout par = 0 then par\<lparr>Timeout := Second\<rparr> else par)
      in par)"

fun range_params :: "QueryParam list \<Rightarrow> QueryParam list \<Rightarrow> QueryParam list" where
  "range_params [] params = params"
| "range_params (elem # rest) params =
     (let par = set_defaults elem in range_params rest params)"

definition QueryContext :: "Env \<Rightarrow> Client \<Rightarrow> QueryParam list \<Rightarrow> (Duration \<times> select_case) list \<Rightarrow> outcome \<times> corr" where
  "QueryContext env c params run = query env c (range_params params params) run"

section \<open>Building a client\<close>

text \<open>
  A call either returns or panics; a panic is not recovered anywhere in client.go, so it
  ends the caller too.
\<close>

datatype 'a exec = Panics | Returns 'a

text \<open>
  \<open>SetInterface\<close> (lines 236-258). \<open>ipv4.NewPacketConn\<close> and \<open>ipv6.NewPacketConn\<close>
  wrap the socket they are given and panic with a nil pointer dereference when it is a
  nil \<open>*net.UDPConn\<close>; \<open>on_packet_conn\<close> is the wrapping followed by
  \<open>p.SetMulticastInterface(iface)\<close>.
\<close>

definition on_packet_conn :: "Env \<Rightarrow> conn option \<Rightarrow> error option exec" where
  "on_packet_conn env l =
     (case l of
        None \<Rightarrow> Panics
      | Some u \<Rightarrow> Returns (SetMulticastInterface env u))"

definition SetInterface :: "Env \<Rightarrow> Client \<Rightarrow> error option exec" where
  "SetInterface env c =
     (case (if use_ipv4 c
            then (case on_packet_conn env (ipv4UnicastConn c) of
                    Panics \<Rightarrow> Panics
                  | Returns (Some err) \<Rightarrow> Returns (Some err)
                  | Returns None \<Rightarrow> on_packet_conn env (ipv4MulticastConn c))
            else Returns None) of
        Panics \<Rightarrow> Panics
      | Returns (Some err) \<Rightarrow> Returns (Some err)
      | Returns None \<Rightarrow>
          (if use_ipv6 c
           then (case on_packet_conn env (ipv6UnicastConn c) of
                   Panics \<Rightarrow> Panics
                 | Returns (Some err) \<Rightarrow> Returns (Some err)
                 | Returns None \<Rightarrow> on_packet_conn env (ipv6MulticastConn c))
           else Returns None))"

text \<open>
  \<open>newClient\<close> (lines 129-206) returns the client (nil is \<open>None\<close>), the error, and here
  also the sockets given to the \<open>go c.recv(...)\<close> statements it ran, in order; it
  panics when \<open>SetInterface\<close> does. \<open>recv\<close> (lines 396-428) returns at once when its
  socket is nil (lines 397-399) and reads from it otherwise: \<open>readers\<close> are the sockets a
  reader task is left running on, and \<open>spawned\<close> the sockets of the tasks started by a
  call of \<open>newClient\<close>.
\<close>

definition newClient :: "Env \<Rightarrow> bool \<Rightarrow> bool \<Rightarrow> (Client option \<times> error option \<times> conn option list) exec" where
  "newClient env v4 v6 =
     (if \<not> v4 \<and> \<not> v6
      then Returns (None, Some ''Must enable at least one of IPv4 and IPv6 querying'', [])
      else
        (let uconn4 = (if v4 then ListenUDP env ''udp4'' else None);
             uconn6 = (if v6 then ListenUDP env ''udp6'' else None)
         in if uconn4 = None \<and> uconn6 = None
            then Returns (None, Some ''failed to bind to any unicast udp port'', [])
            else
              (let mconn4 = (if v4 then ListenMulticastUDP env ''udp4'' else None);
                   mconn6 = (if v6 then ListenMulticastUDP env ''udp6'' else None)
               in if mconn4 = None \<and> mconn6 = None
                  then Returns (None, Some ''failed to bind to any multicast udp port'', [])
                  else
                    (let (uconn4, mconn4, v4) =
                           (if uconn4 = None \<or> mconn4 = None then (None, None, False)
                            else (uconn4, mconn4, v4))
                     in if \<not> v4 \<and> \<not> v6
                        then Returns (None,
                          Some ''at least one of IPv4 and IPv6 must be enabled for querying'', [])
                        else
                          (let c = \<lparr>use_ipv4 = v4, use_ipv6 = v6,
                                    ipv4UnicastConn = uconn4, ipv6UnicastConn = uconn6,
                                    ipv4MulticastConn = mconn4, ipv6MulticastConn = mconn6,
                                    closed = 0\<rparr>
                           in case SetInterface env c of
                                Panics \<Rightarrow> Panics
                              | Returns (Some err) \<Rightarrow> Returns (Some c, Some err, [])
                              | Returns None \<Rightarrow>
                                  Returns (Some c, None,
                                    [ipv4UnicastConn c, ipv4MulticastConn c]))))))"

definition spawned :: "(Client option \<times> error option \<times> conn option list) exec \<Rightarrow> conn option list" where
  "spawned r = (case r of Panics \<Rightarrow> [] | Returns (c, err, ls) \<Rightarrow> ls)"

definition readers :: "conn option list \<Rightarrow> conn list" where
  "readers ls = [l. Some l \<leftarrow> ls]"

section \<open>Vocabulary of the proofs\<close>

text \<open>
  \<open>touched r\<close> is the key under which the switch looks up the entry for record \<open>r\<close>,
  \<open>aliased r\<close> the second key that an SRV record with a foreign target binds, and
  \<open>rr_fields addr r\<close> the assignments the case of \<open>r\<close> makes to the entry, as one
  function on entries. \<open>names rrs\<close> lists the keys touched by a message's records, in
  order. \<open>keeps s s'\<close> says that \<open>s'\<close> has the objects of \<open>s\<close> and possibly more, that
  no \<open>sent\<close> flag or \<open>SrcIP\<close> of an object of \<open>s\<close> differs in \<open>s'\<close>, that the new
  objects are unsent and without \<open>SrcIP\<close>, and that nothing was delivered in between.
  \<open>emit_inv\<close> is the invariant of the loop behind at-most-once delivery: every
  pointer delivered so far is an allocated object whose \<open>sent\<close> flag is set, and none
  was delivered twice. \<open>kind\<close> numbers the cases of the switch, and
  \<open>carried addr r e\<close> says that entry \<open>e\<close> holds the fields that record \<open>r\<close>,
  received from \<open>addr\<close>, carries. For a list of received messages, each with the time
  it is taken from \<open>c.MsgChan\<close> and the readiness of the consumer, \<open>arrivals\<close> is
  the run of the loop that receives them, \<open>all_records\<close> lists their records in the
  order the loop visits them and \<open>all_tagged\<close> pairs each record with the source
  address of its packet. \<open>gathered n s seen\<close> says that the entry under \<open>n\<close> holds
  what every record of \<open>seen\<close> carries.
\<close>

definition keeps :: "corr \<Rightarrow> corr \<Rightarrow> bool" where
  "keeps s s' \<longleftrightarrow>
     length (heap s) \<le> length (heap s') \<and> respChan s' = respChan s \<and>
     (\<forall>q < length (heap s).
        sent (heap s' ! q) = sent (heap s ! q) \<and> SrcIP (heap s' ! q) = SrcIP (heap s ! q)) \<and>
     (\<forall>q. length (heap s) \<le> q \<and> q < length (heap s') \<longrightarrow>
        \<not> sent (heap s' ! q) \<and> SrcIP (heap s' ! q) = [])"

fun touched :: "RR \<Rightarrow> string option" where
  "touched (PTR name ptr) = Some ptr"
| "touched (SRV name target port) = Some name"
| "touched (TXT name ts) = Some name"
| "touched (A name ip) = Some name"
| "touched (AAAA name ip) = Some name"
| "touched (OtherRR name) = None"

fun aliased :: "RR \<Rightarrow> string option" where
  "aliased (SRV name target port) = (if target \<noteq> name then Some target else None)"
| "aliased r = None"

fun rr_fields :: "UDPAddr \<Rightarrow> RR \<Rightarrow> ServiceEntry \<Rightarrow> ServiceEntry" where
  "rr_fields addr (PTR name ptr) = (\<lambda>e. e)"
| "rr_fields addr (SRV name target port) = (\<lambda>e. e\<lparr>Host := target, Port := uint port\<rparr>)"
| "rr_fields addr (TXT name ts) =
     (\<lambda>e. e\<lparr>Info := Join ts ''|'', InfoFields := ts, hasTXT := True\<rparr>)"
| "rr_fields addr (A name ip) = (\<lambda>e. e\<lparr>Addr := ip, AddrV4 := ip\<rparr>)"
| "rr_fields addr (AAAA name ip) = (\<lambda>e. e\<lparr>Addr := ip, AddrV6 := ip, AddrV6IPAddr :=
     Some \<lparr>IP = ip, Zone = (if IsLinkLocalUnicast ip \<or> IsLinkLocalMulticast ip
                             then udpZone addr else [])\<rparr>\<rparr>)"
| "rr_fields addr (OtherRR name) = (\<lambda>e. e)"

definition names :: "RR list \<Rightarrow> string list" where
  "names rrs = List.map_filter touched rrs"

definition emit_inv :: "corr \<Rightarrow> bool" where
  "emit_inv s \<longleftrightarrow> wellformed s \<and> distinct (respChan s) \<and>
     (\<forall>p \<in> set (respChan s). p < length (heap s) \<and> sent (heap s ! p))"

fun kind :: "RR \<Rightarrow> nat" where
  "kind (PTR name ptr) = 0"
| "kind (SRV name target port) = 1"
| "kind (TXT name ts) = 2"
| "kind (A name ip) = 3"
| "kind (AAAA name ip) = 4"
| "kind (OtherRR name) = 5"

fun carried :: "UDPAddr \<Rightarrow> RR \<Rightarrow> ServiceEntry \<Rightarrow> bool" where
  "carried addr (PTR name ptr) e = True"
| "carried addr (SRV name target port) e = (Host e = target \<and> Port e = uint port)"
| "carried addr (TXT name ts) e = (Info e = Join ts ''|'' \<and> InfoFields e = ts \<and> hasTXT e)"
| "carried addr (A name ip) e = (AddrV4 e = ip)"
| "carried addr (AAAA name ip) e = (AddrV6 e = ip \<and> AddrV6IPAddr e =
     Some \<lparr>IP = ip, Zone = (if IsLinkLocalUnicast ip \<or> IsLinkLocalMulticast ip
                             then udpZone addr else [])\<rparr>)"
| "carried addr (OtherRR name) e = True"

definition tagged :: "msgAddr \<Rightarrow> (UDPAddr \<times> RR) list" where
  "tagged resp = map (Pair (src resp)) (Answer (msg resp) @ Extra (msg resp))"

fun arrivals :: "(Duration \<times> msgAddr \<times> bool) list \<Rightarrow> (Duration \<times> select_case) list" where
  "arrivals [] = []"
| "arrivals ((t, resp, ready) # msgs) = (t, FromMsgChan resp ready) # arrivals msgs"

fun all_records :: "(Duration \<times> msgAddr \<times> bool) list \<Rightarrow> RR list" where
  "all_records [] = []"
| "all_records ((t, resp, ready) # msgs) = Answer (msg resp) @ Extra (msg resp) @ all_records msgs"

fun all_tagged :: "(Duration \<times> msgAddr \<times> bool) list \<Rightarrow> (UDPAddr \<times> RR) list" where
  "all_tagged [] = []"
| "all_tagged ((t, resp, ready) # msgs) = tagged resp @ all_tagged msgs"

definition gathered :: "string \<Rightarrow> corr \<Rightarrow> (UDPAddr \<times> RR) list \<Rightarrow> bool" where
  "gathered n s seen \<longleftrightarrow> wellformed s \<and>
     (seen \<noteq> [] \<longrightarrow> (\<exists>p. inprogress s n = Some p \<and> p < length (heap s) \<and>
        (\<forall>(a, x) \<in> set seen. carried a x (heap s ! p))))"

text \<open>
  Sample collaborators and inputs, for evaluating the model: every bind, write and
  interface selection succeeds, \<open>trimDot\<close> strips the dots at both ends, and
  \<open>Pack\<close> refuses, with the codec's error for it, a message whose question name has
  an empty label (a leading dot before more text, or two dots in a row) and accepts
  every other message.
\<close>

fun two_dots :: "string \<Rightarrow> bool" where
  "two_dots (a # b # rest) = ((a = CHR ''.'' \<and> b = CHR ''.'') \<or> two_dots (b # rest))"
| "two_dots z = False"

definition bad_name :: "string \<Rightarrow> bool" where
  "bad_name z = ((case z of a # b # rest \<Rightarrow> a = CHR ''.'' | _ \<Rightarrow> False) \<or> two_dots z)"

definition trim_dots :: "string \<Rightarrow> string" where
  "trim_dots s = rev (dropWhile (\<lambda>ch. ch = CHR ''.'') (rev (dropWhile (\<lambda>ch. ch = CHR ''.'') s)))"

definition sample_env :: Env where
  "sample_env = \<lparr>trimDot = trim_dots,
     Pack = (\<lambda>m. if list_ex (\<lambda>q. bad_name (qName q)) (Question m)
                 then Some ''dns: bad rdata'' else None),
     ListenUDP = (\<lambda>network. if network = ''udp4'' then Some (UDPConn 1) else Some (UDPConn 2)),
     ListenMulticastUDP =
       (\<lambda>network. if network = ''udp4'' then Some (UDPConn 3) else Some (UDPConn 4)),
     WriteToUDP = (\<lambda>l m g. None), SetMulticastInterface = (\<lambda>l. None)\<rparr>"

definition sample_client :: Client where
  "sample_client = \<lparr>use_ipv4 = True, use_ipv6 = True,
     ipv4UnicastConn = Some (UDPConn 1), ipv6UnicastConn = Some (UDPConn 2),
     ipv4MulticastConn = Some (UDPConn 3), ipv6MulticastConn = Some (UDPConn 4),
     closed = 0\<rparr>"

definition sample_src :: UDPAddr where
  "sample_src = \<lparr>udpIP = [192, 168, 1, 7], udpPort = 5353, udpZone = ''eth0''\<rparr>"

section \<open>Lemmas on the table and the record loop\<close>

lemma wf_newCorr: "wellformed newCorr"
  by (simp add: wellformed_def newCorr_def)

lemma wfD: "wellformed s \<Longrightarrow> inprogress s n = Some p \<Longrightarrow> p < length (heap s)"
  by (auto simp: wellformed_def ran_def)

lemma wfI: "(\<And>n p. inprogress s n = Some p \<Longrightarrow> p < length (heap s)) \<Longrightarrow> wellformed s"
  by (auto simp: wellformed_def ran_def)

lemma ensureName_cases:
  assumes "ensureName n s = (p, s')"
  shows "(inprogress s n = Some p \<and> s' = s) \<or>
         (inprogress s n = None \<and> p = length (heap s) \<and>
          s' = s\<lparr>heap := heap s @ [zeroEntry\<lparr>Name := n\<rparr>], inprogress := (inprogress s)(n \<mapsto> p)\<rparr>)"
  using assms by (auto simp: ensureName_def Let_def split: option.splits)

lemma ensureName_wf:
  assumes "wellformed s" "ensureName n s = (p, s')"
  shows "wellformed s'"
  using ensureName_cases [OF assms(2)] assms(1)
  by (auto intro!: wfI dest: wfD split: if_splits simp: less_Suc_eq)

lemma ensureName_bound:
  assumes "wellformed s" "ensureName n s = (p, s')"
  shows "inprogress s' n = Some p \<and> p < length (heap s')"
  using ensureName_cases [OF assms(2)] assms(1)
  by (auto dest: wfD)

lemma store_simps [simp]:
  "inprogress (store p f s) = inprogress s"
  "respChan (store p f s) = respChan s"
  "wire (store p f s) = wire s"
  "length (heap (store p f s)) = length (heap s)"
  by (simp_all add: store_def)

lemma store_wf [simp]: "wellformed (store p f s) = wellformed s"
  by (simp add: wellformed_def)

lemma heap_store: "heap (store p f s) ! q = (if q = p \<and> p < length (heap s) then f (heap s ! p) else heap s ! q)"
  by (cases "p < length (heap s)") (auto simp: store_def nth_list_update list_update_beyond)

lemma alias_to_wf:
  assumes "wellformed s" shows "wellformed (alias_to a b s)"
proof -
  obtain p s1 where e: "ensureName a s = (p, s1)" by (cases "ensureName a s")
  from ensureName_wf [OF assms e] ensureName_bound [OF assms e]
  show ?thesis using e
    by (auto simp: alias_to_def intro!: wfI dest: wfD split: if_splits)
qed

lemma keeps_refl [simp]: "keeps s s"
  by (auto simp: keeps_def)

lemma keeps_trans:
  assumes a: "keeps s s1" and b: "keeps s1 s2"
  shows "keeps s s2"
proof -
  have len: "length (heap s) \<le> length (heap s1)" "length (heap s1) \<le> length (heap s2)"
    using a b by (simp_all add: keeps_def)
  have rc: "respChan s2 = respChan s"
    using a b by (simp add: keeps_def)
  have old: "sent (heap s2 ! q) = sent (heap s ! q) \<and> SrcIP (heap s2 ! q) = SrcIP (heap s ! q)"
    if "q < length (heap s)" for q
  proof -
    have "q < length (heap s1)" using that len by simp
    then show ?thesis using a b that by (simp add: keeps_def)
  qed
  have new: "\<not> sent (heap s2 ! q) \<and> SrcIP (heap s2 ! q) = []"
    if "length (heap s) \<le> q" "q < length (heap s2)" for q
  proof (cases "q < length (heap s1)")
    case True
    then show ?thesis using a b that by (simp add: keeps_def)
  next
    case False
    then show ?thesis using b that by (simp add: keeps_def)
  qed
  show ?thesis
    unfolding keeps_def using len rc old new by simp
qed

lemma keeps_ensureName:
  assumes "ensureName n s = (p, s')" shows "keeps s s'"
  using ensureName_cases [OF assms]
  by (auto simp: keeps_def nth_append zeroEntry_def less_Suc_eq)

lemma keeps_alias_to: "keeps s (alias_to a b s)"
proof -
  obtain p s1 where e: "ensureName a s = (p, s1)" by (cases "ensureName a s")
  from keeps_ensureName [OF e] show ?thesis
    by (simp add: alias_to_def e keeps_def)
qed

lemma keeps_store:
  assumes "\<And>e. sent (f e) = sent e" "\<And>e. SrcIP (f e) = SrcIP e"
  shows "keeps s (store p f s)"
  using assms by (auto simp: keeps_def heap_store)

lemma keeps_store_after:
  assumes "keeps s s1" "\<And>e. sent (f e) = sent e" "\<And>e. SrcIP (f e) = SrcIP e"
  shows "keeps s (store p f s1)"
  by (rule keeps_trans [OF assms(1) keeps_store [OF assms(2,3)]])

lemma keeps_handle_answer:
  assumes "handle_answer a r (inp, s) = (inp', s')"
  shows "keeps s s'"
proof (cases r)
  case (PTR n ptr)
  then show ?thesis using assms
    by (auto split: prod.splits dest: keeps_ensureName)
next
  case (SRV n t port)
  obtain p s2 where e: "ensureName n (if t \<noteq> n then alias_to n t s else s) = (p, s2)"
    by (cases "ensureName n (if t \<noteq> n then alias_to n t s else s)")
  have k1: "keeps s (if t \<noteq> n then alias_to n t s else s)"
    by (simp add: keeps_alias_to)
  have k: "keeps s s2"
    by (rule keeps_trans [OF k1 keeps_ensureName [OF e]])
  have s': "s' = store p (\<lambda>e. e\<lparr>Port := uint port\<rparr>) (store p (\<lambda>e. e\<lparr>Host := t\<rparr>) s2)"
    using assms SRV e by (simp add: Let_def)
  show ?thesis unfolding s' using k
    by (auto intro!: keeps_store_after)
next
  case (TXT n ts)
  obtain p s1 where e: "ensureName n s = (p, s1)" by (cases "ensureName n s")
  have s': "s' = store p (\<lambda>e. e\<lparr>hasTXT := True\<rparr>) (store p (\<lambda>e. e\<lparr>InfoFields := ts\<rparr>)
     (store p (\<lambda>e. e\<lparr>Info := Join ts ''|''\<rparr>) s1))"
    using assms TXT e by (simp add: Let_def)
  show ?thesis unfolding s' using keeps_ensureName [OF e]
    by (auto intro!: keeps_store_after)
next
  case (A n ip)
  obtain p s1 where e: "ensureName n s = (p, s1)" by (cases "ensureName n s")
  have s': "s' = store p (\<lambda>e. e\<lparr>AddrV4 := ip\<rparr>) (store p (\<lambda>e. e\<lparr>Addr := ip\<rparr>) s1)"
    using assms A e by (simp add: Let_def)
  show ?thesis unfolding s' using keeps_ensureName [OF e]
    by (auto intro!: keeps_store_after)
next
  case (AAAA n ip)
  obtain p s1 where e: "ensureName n s = (p, s1)" by (cases "ensureName n s")
  have s': "s' = (if IsLinkLocalUnicast ip \<or> IsLinkLocalMulticast ip
       then store p (\<lambda>e. e\<lparr>AddrV6IPAddr := map_option (\<lambda>a'. a'\<lparr>Zone := udpZone a\<rparr>) (AddrV6IPAddr e)\<rparr>)
       else id) (store p (\<lambda>e. e\<lparr>AddrV6IPAddr := Some \<lparr>IP = ip, Zone = []\<rparr>\<rparr>)
     (store p (\<lambda>e. e\<lparr>AddrV6 := ip\<rparr>) (store p (\<lambda>e. e\<lparr>Addr := ip\<rparr>) s1)))"
    using assms AAAA e by (auto simp: Let_def)
  show ?thesis unfolding s' using keeps_ensureName [OF e]
    by (auto intro!: keeps_store_after)
next
  case (OtherRR n)
  then show ?thesis using assms by simp
qed

lemma store_store: "store p f (store p g s) = store p (\<lambda>e. f (g e)) s"
  by (cases "p < length (heap s)") (simp_all add: store_def list_update_beyond)

lemma store_id: "store p (\<lambda>e. e) s = s"
  by (simp add: store_def)

lemma handle_answer_eq:
  assumes "touched r = Some k"
  shows "handle_answer addr r (inp, s) =
    (let (p, s1) = ensureName k (case aliased r of Some t \<Rightarrow> alias_to k t s | None \<Rightarrow> s)
     in (Some p, store p (rr_fields addr r) s1))"
proof (cases r)
  case (AAAA n ip)
  have f: "rr_fields addr (AAAA n ip) = (\<lambda>e. (if IsLinkLocalUnicast ip \<or> IsLinkLocalMulticast ip
       then (\<lambda>e. e\<lparr>AddrV6IPAddr := map_option (\<lambda>a'. a'\<lparr>Zone := udpZone addr\<rparr>) (AddrV6IPAddr e)\<rparr>)
       else (\<lambda>e. e)) (e\<lparr>Addr := ip, AddrV6 := ip, AddrV6IPAddr := Some \<lparr>IP = ip, Zone = []\<rparr>\<rparr>))"
    by (rule ext) simp
  show ?thesis using assms unfolding AAAA f
    by (auto simp: Let_def store_store store_id split: prod.splits)
qed (use assms in \<open>auto simp: Let_def store_store store_id split: prod.splits\<close>)

lemma handle_answer_effect:
  assumes t: "touched r = Some k" and w: "wellformed s"
    and h: "handle_answer addr r (inp, s) = (inp', s')"
  shows "\<exists>p. inp' = Some p \<and> p < length (heap s') \<and> wellformed s' \<and>
    inprogress s' = (case aliased r of Some t \<Rightarrow> (inprogress s)(k \<mapsto> p, t \<mapsto> p)
                     | None \<Rightarrow> (inprogress s)(k \<mapsto> p)) \<and>
    (case inprogress s k of
       Some p0 \<Rightarrow> p = p0 \<and> heap s' = (heap s)[p := rr_fields addr r (heap s ! p)]
     | None \<Rightarrow> p = length (heap s) \<and>
         heap s' = heap s @ [rr_fields addr r (zeroEntry\<lparr>Name := k\<rparr>)])"
proof -
  define s0 where "s0 = (case aliased r of Some t \<Rightarrow> alias_to k t s | None \<Rightarrow> s)"
  obtain q sq where eq: "ensureName k s = (q, sq)" by (cases "ensureName k s")
  have bq: "inprogress sq k = Some q" "q < length (heap sq)" and wq: "wellformed sq"
    using ensureName_bound [OF w eq] ensureName_wf [OF w eq] by simp_all
  have sq: "(case inprogress s k of
       Some p0 \<Rightarrow> q = p0 \<and> heap sq = heap s
     | None \<Rightarrow> q = length (heap s) \<and> heap sq = heap s @ [zeroEntry\<lparr>Name := k\<rparr>])"
    "inprogress sq = (inprogress s)(k \<mapsto> q)"
    using ensureName_cases [OF eq] by (auto simp: fun_eq_iff)
  have s0: "s0 = (case aliased r of Some t \<Rightarrow> sq\<lparr>inprogress := (inprogress sq)(t \<mapsto> q)\<rparr> | None \<Rightarrow> s)"
    by (simp add: s0_def alias_to_def eq split: option.splits)
  have e0: "ensureName k s0 = (q, case aliased r of Some t \<Rightarrow> s0 | None \<Rightarrow> sq)"
  proof (cases "aliased r")
    case None
    then show ?thesis by (simp add: s0 eq)
  next
    case (Some t')
    have "t' \<noteq> k" using Some t by (cases r) (auto split: if_splits)
    then show ?thesis using Some bq by (simp add: s0 ensureName_def)
  qed
  have r: "inp' = Some q" "s' = store q (rr_fields addr r) (case aliased r of Some t \<Rightarrow> s0 | None \<Rightarrow> sq)"
    using h unfolding handle_answer_eq [OF t] s0_def [symmetric] e0 by simp_all
  have w': "wellformed s'"
    using wq bq unfolding r s0
    by (auto split: option.splits intro!: wfI dest: wfD split: if_splits)
  have hp: "heap (case aliased r of Some t \<Rightarrow> s0 | None \<Rightarrow> sq) = heap sq"
    by (simp add: s0 split: option.splits)
  have tab: "inprogress s' = (case aliased r of Some t \<Rightarrow> (inprogress s)(k \<mapsto> q, t \<mapsto> q)
                     | None \<Rightarrow> (inprogress s)(k \<mapsto> q))"
    unfolding r by (simp add: s0 sq(2) split: option.splits)
  have hs: "heap s' = (heap sq)[q := rr_fields addr r (heap sq ! q)]"
    unfolding r by (simp add: store_def hp)
  show ?thesis
    using w' tab bq(2) sq(1) unfolding r(1) hs
    by (auto split: option.splits simp: nth_append)
qed

lemma names_simps [simp]:
  "names [] = []"
  "names (rrs @ [r]) = (case touched r of None \<Rightarrow> names rrs | Some k \<Rightarrow> names rrs @ [k])"
  by (simp_all add: names_def List.map_filter_def split: option.splits)

lemma handle_answers_snoc:
  "handle_answers addr (rrs @ [r]) st = handle_answer addr r (handle_answers addr rrs st)"
  by (simp add: handle_answers_def)

lemma handle_answer_untouched:
  "touched r = None \<Longrightarrow> handle_answer addr r st = st"
  by (cases r; cases st) simp_all

lemma handle_answers_inv:
  assumes "wellformed s" "handle_answers addr rrs (inp, s) = (inp', s')"
  shows "wellformed s' \<and> keeps s s' \<and>
    (if names rrs = [] then inp' = inp \<and> s' = s
     else \<exists>p. inp' = Some p \<and> p < length (heap s') \<and> inprogress s' (last (names rrs)) = Some p)"
  using assms(2)
proof (induction rrs arbitrary: inp' s' rule: rev_induct)
  case Nil
  then show ?case using assms(1) by (simp add: handle_answers_def)
next
  case (snoc r rrs)
  obtain inp1 s1 where h1: "handle_answers addr rrs (inp, s) = (inp1, s1)"
    by (cases "handle_answers addr rrs (inp, s)")
  note ih = snoc.IH [OF h1]
  have h: "handle_answer addr r (inp1, s1) = (inp', s')"
    using snoc.prems by (simp add: handle_answers_snoc h1)
  show ?case
  proof (cases "touched r")
    case None
    then show ?thesis using ih h by (auto simp: handle_answer_untouched)
  next
    case (Some k)
    from handle_answer_effect [OF Some _ h] ih
    obtain p where p: "inp' = Some p" "p < length (heap s')" "wellformed s'"
      "inprogress s' = (case aliased r of Some t \<Rightarrow> (inprogress s1)(k \<mapsto> p, t \<mapsto> p)
                     | None \<Rightarrow> (inprogress s1)(k \<mapsto> p))"
      by blast
    have "aliased r \<noteq> Some k" using Some by (cases r) auto
    then have "inprogress s' k = Some p"
      by (auto simp: p(4) split: option.splits)
    moreover have "keeps s s'"
      using ih keeps_handle_answer [OF h] by (blast intro: keeps_trans)
    ultimately show ?thesis using p Some by simp
  qed
qed

lemma handle_answers_keeps:
  "handle_answers addr rrs (inp, s) = (inp', s') \<Longrightarrow> keeps s s'"
proof (induction rrs arbitrary: inp' s' rule: rev_induct)
  case Nil
  then show ?case by (simp add: handle_answers_def)
next
  case (snoc r rrs)
  obtain inp1 s1 where h1: "handle_answers addr rrs (inp, s) = (inp1, s1)"
    by (cases "handle_answers addr rrs (inp, s)")
  have h: "handle_answer addr r (inp1, s1) = (inp', s')"
    using snoc.prems by (simp add: handle_answers_snoc h1)
  show ?case
    by (rule keeps_trans [OF snoc.IH [OF h1] keeps_handle_answer [OF h]])
qed

lemma handle_resp_eq:
  assumes "handle_answers (src resp) (Answer (msg resp) @ Extra (msg resp)) (None, s) = (inp, s1)"
  shows "handle_resp env c resp ready s =
    (case inp of None \<Rightarrow> s1
     | Some p \<Rightarrow>
        (let s2 = store p (\<lambda>e. e\<lparr>SrcIP := udpIP (src resp)\<rparr>) s1
         in if sent (heap s1 ! p) then s2
            else (let s3 = store p (\<lambda>e. e\<lparr>sent := True\<rparr>) s2
                  in if ready then s3\<lparr>respChan := respChan s3 @ [p]\<rparr> else s3)))"
proof (cases inp)
  case None
  then show ?thesis by (simp add: handle_resp_def assms)
next
  case (Some p)
  have "sent (heap (store p (\<lambda>e. e\<lparr>SrcIP := udpIP (src resp)\<rparr>) s1) ! p) = sent (heap s1 ! p)"
    by (simp add: heap_store)
  then show ?thesis
    by (simp add: handle_resp_def assms Some complete_def Let_def)
qed


section \<open>Lemmas on delivery\<close>

lemma emit_inv_keeps:
  assumes "emit_inv s" "keeps s s1" "wellformed s1"
  shows "emit_inv s1"
  using assms unfolding emit_inv_def keeps_def by auto

lemma emit_inv_store:
  assumes "emit_inv s" "\<And>e. sent e \<Longrightarrow> sent (f e)"
  shows "emit_inv (store p f s)"
  using assms unfolding emit_inv_def by (auto simp: heap_store)

lemma handle_resp_inv:
  assumes "emit_inv s"
  shows "emit_inv (handle_resp env c resp ready s)"
proof -
  obtain inp s1 where h: "handle_answers (src resp) (Answer (msg resp) @ Extra (msg resp)) (None, s) = (inp, s1)"
    by (cases "handle_answers (src resp) (Answer (msg resp) @ Extra (msg resp)) (None, s)")
  have w: "wellformed s" using assms by (simp add: emit_inv_def)
  note inv = handle_answers_inv [OF w h]
  have i1: "emit_inv s1"
    using emit_inv_keeps [OF assms] inv by simp
  show ?thesis
  proof (cases inp)
    case None
    then show ?thesis using i1 by (simp add: handle_resp_eq [OF h])
  next
    case (Some p)
    then have pl: "p < length (heap s1)" using inv by (auto split: if_splits)
    let ?s2 = "store p (\<lambda>e. e\<lparr>SrcIP := udpIP (src resp)\<rparr>) s1"
    let ?s3 = "store p (\<lambda>e. e\<lparr>sent := True\<rparr>) ?s2"
    have i2: "emit_inv ?s2" by (rule emit_inv_store [OF i1]) simp
    have i3: "emit_inv ?s3" by (rule emit_inv_store [OF i2]) simp
    show ?thesis
    proof (cases "sent (heap s1 ! p)")
      case True
      then show ?thesis using i2 Some by (simp add: handle_resp_eq [OF h])
    next
      case False
      then have "p \<notin> set (respChan s1)" using i1 by (auto simp: emit_inv_def)
      then have "emit_inv (?s3\<lparr>respChan := respChan ?s3 @ [p]\<rparr>)"
        using i3 pl by (auto simp: emit_inv_def wellformed_def heap_store)
      then show ?thesis using i3 Some False
        by (simp add: handle_resp_eq [OF h] Let_def)
    qed
  qed
qed

lemma write_if_open_frame:
  "write_if_open env l buf dst s = (err, s') \<Longrightarrow>
     inprogress s' = inprogress s \<and> heap s' = heap s \<and> respChan s' = respChan s"
  by (auto simp: write_if_open_def split: option.splits)

lemma sendQuery_frame:
  assumes "sendQuery env c q s = (err, s')"
  shows "inprogress s' = inprogress s \<and> heap s' = heap s \<and> respChan s' = respChan s"
proof (cases "Pack env q")
  case (Some e)
  then show ?thesis using assms by (simp add: sendQuery_def)
next
  case None
  obtain e1 s1 where w1: "write_if_open env (ipv4UnicastConn c) q ipv4Addr s = (e1, s1)"
    by (cases "write_if_open env (ipv4UnicastConn c) q ipv4Addr s")
  obtain e2 s2 where w2: "write_if_open env (ipv6UnicastConn c) q ipv6Addr s1 = (e2, s2)"
    by (cases "write_if_open env (ipv6UnicastConn c) q ipv6Addr s1")
  have "s' = s1 \<or> s' = s2"
    using assms None w1 w2 by (auto simp: sendQuery_def split: option.splits)
  then show ?thesis
    using write_if_open_frame [OF w1] write_if_open_frame [OF w2] by auto
qed

lemma send_queries_frame:
  "send_queries env c params s = (err, s') \<Longrightarrow>
     inprogress s' = inprogress s \<and> heap s' = heap s \<and> respChan s' = respChan s"
proof (induction params arbitrary: s)
  case Nil
  then show ?case by simp
next
  case (Cons par rest)
  obtain e1 s1 where q: "sendQuery env c (build_query env par) s = (e1, s1)"
    by (cases "sendQuery env c (build_query env par) s")
  show ?case
  proof (cases e1)
    case None
    then show ?thesis using Cons.prems q Cons.IH [of s1] sendQuery_frame [OF q] by simp
  next
    case (Some e)
    then show ?thesis using Cons.prems q sendQuery_frame [OF q] by auto
  qed
qed

lemma listen_inv:
  "emit_inv s \<Longrightarrow> emit_inv (snd (listen env c finish run s))"
  by (induction env c finish run s rule: listen.induct) (simp_all add: handle_resp_inv)

lemma query_inv: "emit_inv (snd (query env c params run))"
proof -
  obtain err s where q: "send_queries env c params newCorr = (err, s)"
    by (cases "send_queries env c params newCorr")
  have "emit_inv s"
    using send_queries_frame [OF q] by (simp add: emit_inv_def wellformed_def newCorr_def)
  then show ?thesis
    using listen_inv [of s env c "2 * Second" run]
    by (cases err) (simp_all add: query_def q)
qed

lemma handle_resp_sent_stays:
  assumes "p < length (heap s)" "sent (heap s ! p)"
  shows "p < length (heap (handle_resp env c resp ready s)) \<and>
         sent (heap (handle_resp env c resp ready s) ! p) \<and>
         count_list (respChan (handle_resp env c resp ready s)) p = count_list (respChan s) p"
proof -
  obtain inp s1 where h: "handle_answers (src resp) (Answer (msg resp) @ Extra (msg resp)) (None, s) = (inp, s1)"
    by (cases "handle_answers (src resp) (Answer (msg resp) @ Extra (msg resp)) (None, s)")
  have k: "keeps s s1" by (rule handle_answers_keeps [OF h])
  have s1: "p < length (heap s1)" "sent (heap s1 ! p)" "respChan s1 = respChan s"
    using k assms by (auto simp: keeps_def)
  show ?thesis
  proof (cases inp)
    case None
    then show ?thesis using s1 by (simp add: handle_resp_eq [OF h])
  next
    case (Some q)
    show ?thesis
    proof (cases "sent (heap s1 ! q)")
      case True
      then show ?thesis using s1 Some by (simp add: handle_resp_eq [OF h] heap_store)
    next
      case False
      then have "q \<noteq> p" using s1 by auto
      then show ?thesis using s1 Some False
        by (simp add: handle_resp_eq [OF h] heap_store Let_def)
    qed
  qed
qed

lemma listen_sent_stays:
  "p < length (heap s) \<Longrightarrow> sent (heap s ! p) \<Longrightarrow>
   count_list (respChan (snd (listen env c finish run s))) p = count_list (respChan s) p"
  by (induction env c finish run s rule: listen.induct) (simp_all add: handle_resp_sent_stays)

section \<open>Lemmas on the fields a record carries\<close>

lemma carried_own: "carried addr r (rr_fields addr r e)"
  by (cases r) simp_all

lemma carried_SrcIP: "carried addr r (e\<lparr>SrcIP := x\<rparr>) = carried addr r e"
  by (cases r) simp_all

lemma carried_sent: "carried addr r (e\<lparr>sent := x\<rparr>) = carried addr r e"
  by (cases r) simp_all

lemma carried_across:
  "kind r \<noteq> kind r' \<Longrightarrow> carried a r' e \<Longrightarrow> carried a r' (rr_fields addr r e)"
  by (cases r; cases r') simp_all

lemma gathered_answer:
  assumes g: "gathered n s seen" and t: "touched r = Some n"
    and k: "kind r \<notin> kind ` snd ` set seen"
    and h: "handle_answer addr r (inp, s) = (inp', s')"
  shows "gathered n s' (seen @ [(addr, r)]) \<and> inp' = inprogress s' n \<and> inp' \<noteq> None"
proof -
  have w: "wellformed s" using g by (simp add: gathered_def)
  from handle_answer_effect [OF t w h]
  obtain p where p: "inp' = Some p" "p < length (heap s')" "wellformed s'"
    "inprogress s' = (case aliased r of Some t \<Rightarrow> (inprogress s)(n \<mapsto> p, t \<mapsto> p)
                      | None \<Rightarrow> (inprogress s)(n \<mapsto> p))"
    "(case inprogress s n of
       Some p0 \<Rightarrow> p = p0 \<and> heap s' = (heap s)[p := rr_fields addr r (heap s ! p)]
     | None \<Rightarrow> p = length (heap s) \<and>
         heap s' = heap s @ [rr_fields addr r (zeroEntry\<lparr>Name := n\<rparr>)])"
    by blast
  have "aliased r \<noteq> Some n" using t by (cases r) auto
  then have tab: "inprogress s' n = Some p"
    by (auto simp: p(4) split: option.splits)
  have own: "carried addr r (heap s' ! p)"
    using p(2,5) by (auto split: option.splits simp: carried_own)
  have rest: "carried a x (heap s' ! p)" if ax: "(a, x) \<in> set seen" for a x
  proof -
    have kd: "kind r \<noteq> kind x" using k ax by force
    have "seen \<noteq> []" using ax by auto
    then obtain p1 where p1: "inprogress s n = Some p1" "p1 < length (heap s)"
      "\<forall>(a, x) \<in> set seen. carried a x (heap s ! p1)"
      using g by (auto simp: gathered_def)
    have "heap s' ! p = rr_fields addr r (heap s ! p1)"
      using p(5) p1(1,2) by simp
    moreover have "carried a x (heap s ! p1)"
      using p1(3) ax by blast
    ultimately show ?thesis
      using carried_across [OF kd] by simp
  qed
  have "\<forall>(a, x) \<in> set (seen @ [(addr, r)]). carried a x (heap s' ! p)"
    using own rest by auto
  then show ?thesis
    unfolding gathered_def using p(1,2,3) tab by auto
qed

lemma gathered_answers:
  assumes "gathered n s seen" and "\<forall>r \<in> set rrs. touched r = Some n"
    and "distinct (map kind (map snd seen @ rrs))"
    and "handle_answers addr rrs (inp, s) = (inp', s')"
  shows "gathered n s' (seen @ map (Pair addr) rrs) \<and>
         (if rrs = [] then inp' = inp \<and> s' = s else inp' = inprogress s' n \<and> inp' \<noteq> None)"
  using assms
proof (induction rrs arbitrary: inp' s' rule: rev_induct)
  case Nil
  then show ?case by (simp add: handle_answers_def)
next
  case (snoc r rrs)
  obtain inp1 s1 where h1: "handle_answers addr rrs (inp, s) = (inp1, s1)"
    by (cases "handle_answers addr rrs (inp, s)")
  have d: "distinct (map kind (map snd seen @ rrs))"
    using snoc.prems(3) by simp
  have g1: "gathered n s1 (seen @ map (Pair addr) rrs)"
    using snoc.IH [OF snoc.prems(1) _ d h1] snoc.prems(2) by simp
  have hr: "handle_answer addr r (inp1, s1) = (inp', s')"
    using snoc.prems(4) by (simp add: handle_answers_snoc h1)
  have t: "touched r = Some n" using snoc.prems(2) by simp
  have k: "kind r \<notin> kind ` snd ` set (seen @ map (Pair addr) rrs)"
    using snoc.prems(3) by (auto simp: image_iff)
  from gathered_answer [OF g1 t k hr] show ?case by auto
qed

lemma gathered_store:
  assumes "gathered n s seen" "\<And>a x e. carried a x (f e) = carried a x e"
  shows "gathered n (store q f s) seen"
  using assms unfolding gathered_def by (auto simp: heap_store)

lemma gathered_resp:
  assumes g: "gathered n s seen"
    and t: "\<forall>r \<in> set (Answer (msg resp) @ Extra (msg resp)). touched r = Some n"
    and d: "distinct (map kind (map snd seen @ Answer (msg resp) @ Extra (msg resp)))"
  shows "gathered n (handle_resp env c resp ready s) (seen @ tagged resp)"
proof -
  obtain inp s1 where h: "handle_answers (src resp) (Answer (msg resp) @ Extra (msg resp)) (None, s) = (inp, s1)"
    by (cases "handle_answers (src resp) (Answer (msg resp) @ Extra (msg resp)) (None, s)")
  have g1: "gathered n s1 (seen @ tagged resp)"
    using gathered_answers [OF g t d h] by (simp add: tagged_def)
  show ?thesis
  proof (cases inp)
    case None
    then show ?thesis using g1 by (simp add: handle_resp_eq [OF h])
  next
    case (Some p)
    let ?s2 = "store p (\<lambda>e. e\<lparr>SrcIP := udpIP (src resp)\<rparr>) s1"
    let ?s3 = "store p (\<lambda>e. e\<lparr>sent := True\<rparr>) ?s2"
    have g2: "gathered n ?s2 (seen @ tagged resp)"
      by (rule gathered_store [OF g1]) (rule carried_SrcIP)
    have g3: "gathered n ?s3 (seen @ tagged resp)"
      by (rule gathered_store [OF g2]) (rule carried_sent)
    have g4: "gathered n (?s3\<lparr>respChan := respChan ?s3 @ [p]\<rparr>) (seen @ tagged resp)"
      using g3 by (simp add: gathered_def wellformed_def)
    show ?thesis
      using g2 g3 g4 Some by (simp add: handle_resp_eq [OF h] Let_def)
  qed
qed

lemma gathered_listen:
  assumes "gathered n s seen"
    and "\<forall>r \<in> set (all_records msgs). touched r = Some n"
    and "distinct (map kind (map snd seen @ all_records msgs))"
  shows "gathered n (snd (listen env c finish (arrivals msgs) s)) (seen @ all_tagged msgs)"
  using assms
proof (induction msgs arbitrary: s seen)
  case Nil
  then show ?case by simp
next
  case (Cons m msgs)
  obtain t resp ready where m: "m = (t, resp, ready)" by (cases m)
  have t1: "\<forall>r \<in> set (Answer (msg resp) @ Extra (msg resp)). touched r = Some n"
    and t2: "\<forall>r \<in> set (all_records msgs). touched r = Some n"
    using Cons.prems(2) by (auto simp: m)
  have d1: "distinct (map kind (map snd seen @ Answer (msg resp) @ Extra (msg resp)))"
    using Cons.prems(3) by (auto simp: m)
  have g1: "gathered n (handle_resp env c resp ready s) (seen @ tagged resp)"
    by (rule gathered_resp [OF Cons.prems(1) t1 d1])
  have sn: "map snd (tagged resp) = Answer (msg resp) @ Extra (msg resp)"
    by (simp add: tagged_def comp_def)
  have d2: "distinct (map kind (map snd (seen @ tagged resp) @ all_records msgs))"
    using Cons.prems(3) by (simp add: m sn)
  from Cons.IH [OF g1 t2 d2]
  show ?case by (simp add: m)
qed

lemma all_tagged_records: "map snd (all_tagged msgs) = all_records msgs"
  by (induction msgs) (auto simp: tagged_def comp_def)

lemma all_tagged_member:
  "(t, resp, ready) \<in> set msgs \<Longrightarrow> r \<in> set (Answer (msg resp) @ Extra (msg resp)) \<Longrightarrow>
   (src resp, r) \<in> set (all_tagged msgs)"
  by (induction msgs) (auto simp: tagged_def)

section \<open>Lemmas on dispatch, the client and the deadline\<close>

lemma range_params_unchanged: "range_params elems params = params"
  by (induction elems) simp_all

lemma QueryContext_is_query: "QueryContext env c params run = query env c params run"
  by (simp add: QueryContext_def range_params_unchanged)

lemma build_query_ignores_Timeout: "build_query env (par\<lparr>Timeout := d\<rparr>) = build_query env par"
  by (simp add: build_query_def)

lemma send_queries_ignore_Timeout:
  "send_queries env c (map (\<lambda>par. par\<lparr>Timeout := d\<rparr>) params) s = send_queries env c params s"
  by (induction params arbitrary: s)
    (simp_all add: build_query_ignores_Timeout split: prod.splits option.splits)

lemma newClient_spawns:
  "spawned (newClient env v4 v6) = [] \<or>
   (\<exists>c err. newClient env v4 v6 = Returns (Some c, err, [ipv4UnicastConn c, ipv4MulticastConn c]))"
  by (cases v4; cases v6; cases "ListenUDP env ''udp4''"; cases "ListenUDP env ''udp6''";
      cases "ListenMulticastUDP env ''udp4''"; cases "ListenMulticastUDP env ''udp6''")
    (simp_all add: newClient_def spawned_def Let_def split: option.split exec.split)

lemma newClient_ipv4_pair:
  assumes "newClient env v4 v6 = Returns (Some c, err, ls)"
  shows "if use_ipv4 c then ipv4UnicastConn c \<noteq> None \<and> ipv4MulticastConn c \<noteq> None
         else ipv4UnicastConn c = None \<and> ipv4MulticastConn c = None"
  using assms
  by (cases v4; cases v6; cases "ListenUDP env ''udp4''"; cases "ListenUDP env ''udp6''";
      cases "ListenMulticastUDP env ''udp4''"; cases "ListenMulticastUDP env ''udp6''")
    (auto simp: newClient_def Let_def split: option.splits exec.splits)

lemma newClient_keeps_use_ipv6:
  assumes "newClient env v4 v6 = Returns (Some c, err, ls)"
  shows "use_ipv6 c = v6"
  using assms
  by (cases v4; cases v6; cases "ListenUDP env ''udp4''"; cases "ListenUDP env ''udp6''";
      cases "ListenMulticastUDP env ''udp4''"; cases "ListenMulticastUDP env ''udp6''")
    (auto simp: newClient_def Let_def split: option.splits exec.splits)

lemma listen_returns_nil:
  "finish \<le> t \<Longrightarrow>
   fst (listen env c finish (arrivals msgs @ (t, FromFinish) # rest) s) = Returned None"
  by (induction msgs arbitrary: s) auto

section \<open>Claims\<close>

text \<open>
  C6. An SRV record whose Target differs from its own name leaves the in-progress
  table with the record name and the target name bound to the same \<open>ServiceEntry\<close>
  object: both keys hold one pointer \<open>p\<close>, which is also the loop's \<open>inp\<close>, and
  whatever is then assigned through that pointer is what a lookup under either key
  sees.
\<close>

theorem srv_alias_shares_entry:
  assumes "wellformed s" "target \<noteq> name"
    and "handle_answer addr (SRV name target port) (inp, s) = (inp', s')"
  shows "\<exists>p. inp' = Some p \<and> p < length (heap s') \<and>
           inprogress s' name = Some p \<and> inprogress s' target = Some p \<and>
           (\<forall>f. lookup (store p f s') name = Some (f (heap s' ! p)) \<and>
                lookup (store p f s') target = Some (f (heap s' ! p)))"
proof -
  obtain q s1 where e1: "ensureName name s = (q, s1)" by (cases "ensureName name s")
  have b1: "inprogress s1 name = Some q" "q < length (heap s1)"
    using ensureName_bound [OF assms(1) e1] by simp_all
  define s2 where "s2 = s1\<lparr>inprogress := (inprogress s1)(target \<mapsto> q)\<rparr>"
  have a: "alias_to name target s = s2"
    by (simp add: alias_to_def e1 s2_def)
  have l2: "inprogress s2 name = Some q" "inprogress s2 target = Some q"
    using b1 assms(2) by (simp_all add: s2_def)
  have e2: "ensureName name s2 = (q, s2)"
    by (simp add: ensureName_def l2)
  have r: "inp' = Some q" "s' = store q (\<lambda>e. e\<lparr>Port := uint port\<rparr>) (store q (\<lambda>e. e\<lparr>Host := target\<rparr>) s2)"
    using assms(2,3) by (simp_all add: a e2)
  have len: "q < length (heap s')" using b1 by (simp add: r s2_def)
  show ?thesis
    using l2 len by (auto simp: r lookup_def heap_store)
qed

theorem srv_alias_shares_entry_witness:
  "wellformed newCorr \<and> ''node1.local.'' \<noteq> ''node1._http._tcp.local.'' \<and>
   (\<exists>p. inprogress (snd (handle_answer sample_src
            (SRV ''node1._http._tcp.local.'' ''node1.local.'' 8080) (None, newCorr)))
          ''node1._http._tcp.local.'' = Some p \<and>
        inprogress (snd (handle_answer sample_src
            (SRV ''node1._http._tcp.local.'' ''node1.local.'' 8080) (None, newCorr)))
          ''node1.local.'' = Some p)"
proof -
  have ne: "''node1.local.'' \<noteq> ''node1._http._tcp.local.''" by simp
  from srv_alias_shares_entry [OF wf_newCorr ne prod.collapse [symmetric]]
  show ?thesis using wf_newCorr ne by blast
qed

text \<open>
  C10. In one received message only the entry looked up by the last record that the
  switch has a case for (the last key of \<open>names\<close>) gets its \<open>SrcIP\<close> from the packet
  and goes through the completion check: it ends up marked \<open>sent\<close>, and it is
  delivered exactly if the consumer is ready and it was not marked before. Every other
  object keeps the \<open>SrcIP\<close> and \<open>sent\<close> flag it had before the message; an object
  created by the message has none. A message with no such record changes nothing.
\<close>

theorem last_record_entry_only:
  assumes "wellformed s"
    and "ks = names (Answer (msg resp) @ Extra (msg resp))"
    and "s' = handle_resp env c resp ready s"
  shows "(ks = [] \<longrightarrow> s' = s) \<and>
    (ks \<noteq> [] \<longrightarrow>
      (\<exists>p. inprogress s' (last ks) = Some p \<and> p < length (heap s') \<and>
         SrcIP (heap s' ! p) = udpIP (src resp) \<and> sent (heap s' ! p) \<and>
         respChan s' = respChan s @
           (if ready \<and> \<not> (p < length (heap s) \<and> sent (heap s ! p)) then [p] else []) \<and>
         (\<forall>q. q < length (heap s') \<and> q \<noteq> p \<longrightarrow>
            SrcIP (heap s' ! q) = (if q < length (heap s) then SrcIP (heap s ! q) else []) \<and>
            sent (heap s' ! q) = (q < length (heap s) \<and> sent (heap s ! q)))))"
proof -
  obtain inp s1 where h: "handle_answers (src resp) (Answer (msg resp) @ Extra (msg resp)) (None, s) = (inp, s1)"
    by (cases "handle_answers (src resp) (Answer (msg resp) @ Extra (msg resp)) (None, s)")
  note inv = handle_answers_inv [OF assms(1) h, folded assms(2)]
  note eq = handle_resp_eq [OF h, of env c ready, folded assms(3)]
  show ?thesis
  proof (cases "ks = []")
    case True
    then show ?thesis using inv eq by simp
  next
    case False
    then obtain p where p: "inp = Some p" "p < length (heap s1)" "inprogress s1 (last ks) = Some p"
      using inv by auto
    have k: "keeps s s1" using inv by simp
    have sp: "sent (heap s1 ! p) = (p < length (heap s) \<and> sent (heap s ! p))"
      using k p(2) unfolding keeps_def by (metis not_le_imp_less)
    have other: "\<And>q. q < length (heap s1) \<Longrightarrow>
        SrcIP (heap s1 ! q) = (if q < length (heap s) then SrcIP (heap s ! q) else []) \<and>
        sent (heap s1 ! q) = (q < length (heap s) \<and> sent (heap s ! q))"
      using k unfolding keeps_def by (metis not_le_imp_less)
    have rc: "respChan s1 = respChan s" using k by (simp add: keeps_def)
    show ?thesis
      using False p(2,3) other rc unfolding eq p(1) sp
      by (auto simp: Let_def heap_store)
  qed
qed

theorem last_record_entry_only_witness:
  "wellformed newCorr \<and>
   names (Answer (msg \<lparr>msg = newMsg\<lparr>Answer := [PTR ''_http._tcp.local.'' ''node1._http._tcp.local.'',
       A ''node2.local.'' [10, 0, 0, 5]]\<rparr>, src = sample_src\<rparr>) @
     Extra (msg \<lparr>msg = newMsg\<lparr>Answer := [PTR ''_http._tcp.local.'' ''node1._http._tcp.local.'',
       A ''node2.local.'' [10, 0, 0, 5]]\<rparr>, src = sample_src\<rparr>))
     = [''node1._http._tcp.local.'', ''node2.local.''] \<and>
   (\<exists>p. inprogress (handle_resp sample_env sample_client
        \<lparr>msg = newMsg\<lparr>Answer := [PTR ''_http._tcp.local.'' ''node1._http._tcp.local.'',
          A ''node2.local.'' [10, 0, 0, 5]]\<rparr>, src = sample_src\<rparr> True newCorr) ''node2.local.'' = Some p \<and>
      respChan (handle_resp sample_env sample_client
        \<lparr>msg = newMsg\<lparr>Answer := [PTR ''_http._tcp.local.'' ''node1._http._tcp.local.'',
          A ''node2.local.'' [10, 0, 0, 5]]\<rparr>, src = sample_src\<rparr> True newCorr) = [p])"
proof -
  let ?resp = "\<lparr>msg = newMsg\<lparr>Answer := [PTR ''_http._tcp.local.'' ''node1._http._tcp.local.'',
       A ''node2.local.'' [10, 0, 0, 5]]\<rparr>, src = sample_src\<rparr>"
  have n: "names (Answer (msg ?resp) @ Extra (msg ?resp))
      = [''node1._http._tcp.local.'', ''node2.local.'']"
    by (simp add: names_def List.map_filter_def newMsg_def)
  from last_record_entry_only [OF wf_newCorr n [symmetric] refl, of sample_env sample_client True]
  show ?thesis using wf_newCorr n by (auto simp: newCorr_def)
qed

text \<open>
  C8. Processing an AAAA record stores an \<open>AddrV6IPAddr\<close> with the record's address;
  its \<open>Zone\<close> is the zone of the UDP source address of the packet when the address is
  link-local (unicast or multicast), and empty otherwise.
\<close>

theorem aaaa_zone_from_packet:
  assumes "wellformed s"
    and "handle_answer addr (AAAA name ip) (inp, s) = (inp', s')"
  shows "\<exists>p. inp' = Some p \<and> inprogress s' name = Some p \<and> p < length (heap s') \<and>
           AddrV6IPAddr (heap s' ! p) =
             Some \<lparr>IP = ip, Zone = (if IsLinkLocalUnicast ip \<or> IsLinkLocalMulticast ip
                                     then udpZone addr else [])\<rparr>"
proof -
  have t: "touched (AAAA name ip) = Some name" by simp
  from handle_answer_effect [OF t assms]
  show ?thesis
    by (auto split: option.splits)
qed

theorem aaaa_zone_from_packet_witness:
  "wellformed newCorr \<and>
   IsLinkLocalUnicast [0xfe, 0x80, 0, 0, 0, 0, 0, 0, 0, 0, 0, 0, 0, 0, 0, 1] \<and>
   (\<exists>p. inprogress (snd (handle_answer sample_src
           (AAAA ''node1.local.'' [0xfe, 0x80, 0, 0, 0, 0, 0, 0, 0, 0, 0, 0, 0, 0, 0, 1])
           (None, newCorr))) ''node1.local.'' = Some p \<and>
        map_option Zone (AddrV6IPAddr (heap (snd (handle_answer sample_src
           (AAAA ''node1.local.'' [0xfe, 0x80, 0, 0, 0, 0, 0, 0, 0, 0, 0, 0, 0, 0, 0, 1])
           (None, newCorr))) ! p)) = Some ''eth0'')"
proof -
  let ?ip = "[0xfe, 0x80, 0, 0, 0, 0, 0, 0, 0, 0, 0, 0, 0, 0, 0, 1] :: IP"
  have ll: "IsLinkLocalUnicast ?ip"
    by (simp add: IsLinkLocalUnicast_def To4_def)
  have z: "udpZone sample_src = ''eth0''"
    by (simp add: sample_src_def)
  from aaaa_zone_from_packet [OF wf_newCorr prod.collapse [symmetric],
      of sample_src "''node1.local.''" ?ip None]
  obtain p where "inprogress (snd (handle_answer sample_src (AAAA ''node1.local.'' ?ip)
        (None, newCorr))) ''node1.local.'' = Some p"
    "AddrV6IPAddr (heap (snd (handle_answer sample_src (AAAA ''node1.local.'' ?ip)
        (None, newCorr))) ! p) = Some \<lparr>IP = ?ip, Zone = ''eth0''\<rparr>"
    unfolding z using ll by auto
  then show ?thesis using wf_newCorr ll by simp
qed



text \<open>
  C5. Whatever messages arrive, no \<open>ServiceEntry\<close> is delivered on the output channel
  twice during a \<open>query\<close>; and from any state of the loop on, an entry whose \<open>sent\<close>
  flag is set is not delivered again, whatever the loop receives afterwards.
\<close>

theorem entry_sent_at_most_once:
  "distinct (respChan (snd (query env c params run))) \<and>
   (p < length (heap s) \<and> sent (heap s ! p) \<longrightarrow>
      count_list (respChan (snd (listen env c finish run s))) p = count_list (respChan s) p)"
  using query_inv [of env c params run] listen_sent_stays [of p s env c finish run]
  by (simp add: emit_inv_def)

theorem entry_sent_at_most_once_witness:
  "0 < length (heap (handle_resp sample_env sample_client
       \<lparr>msg = newMsg\<lparr>Answer := [TXT ''node1.local.'' [''v=1'']]\<rparr>, src = sample_src\<rparr> True newCorr)) \<and>
   sent (heap (handle_resp sample_env sample_client
       \<lparr>msg = newMsg\<lparr>Answer := [TXT ''node1.local.'' [''v=1'']]\<rparr>, src = sample_src\<rparr> True newCorr) ! 0) \<and>
   respChan (handle_resp sample_env sample_client
       \<lparr>msg = newMsg\<lparr>Answer := [TXT ''node1.local.'' [''v=1'']]\<rparr>, src = sample_src\<rparr> True newCorr) = [0] \<and>
   count_list (respChan (snd (listen sample_env sample_client (2 * Second)
       [(Second, FromMsgChan \<lparr>msg = newMsg\<lparr>Answer := [A ''node1.local.'' [10, 0, 0, 5]]\<rparr>,
           src = sample_src\<rparr> True)]
       (handle_resp sample_env sample_client
         \<lparr>msg = newMsg\<lparr>Answer := [TXT ''node1.local.'' [''v=1'']]\<rparr>, src = sample_src\<rparr> True newCorr)))) 0 = 1"
proof -
  let ?s1 = "handle_resp sample_env sample_client
       \<lparr>msg = newMsg\<lparr>Answer := [TXT ''node1.local.'' [''v=1'']]\<rparr>, src = sample_src\<rparr> True newCorr"
  have e: "0 < length (heap ?s1) \<and> sent (heap ?s1 ! 0)" and r: "respChan ?s1 = [0]"
    by (simp_all add: handle_resp_def handle_answers_def ensureName_def store_def newCorr_def
        newMsg_def complete_def zeroEntry_def Let_def)
  let ?run = "[(Second, FromMsgChan \<lparr>msg = newMsg\<lparr>Answer := [A ''node1.local.'' [10, 0, 0, 5]]\<rparr>,
           src = sample_src\<rparr> True)]"
  note once = entry_sent_at_most_once [where p = 0 and s = ?s1 and env = sample_env
      and c = sample_client and finish = "2 * Second" and run = ?run, THEN conjunct2, rule_format]
  have "count_list (respChan (snd (listen sample_env sample_client (2 * Second) ?run ?s1))) 0
      = count_list (respChan ?s1) 0"
    by (rule once) (rule e)
  then show ?thesis using e r by simp
qed

text \<open>
  C7. When the records received are one SRV, one TXT, one A and one AAAA record for
  one name, in any order and split in any way over messages and over their answer and
  extra sections, the entry under that name afterwards holds the host and port, the
  text, the IPv4 address and the IPv6 address that the records carry, the latter with
  the zone of the packet that brought the AAAA record when it is link-local. The
  deprecated field \<open>Addr\<close>, which the A and the AAAA case both assign, is not among
  them: it holds the address of whichever of the two was processed last.
\<close>

theorem record_fields_any_order:
  assumes "wellformed s"
    and "mset (all_records msgs) = mset [SRV n target port, TXT n ts, A n ip4, AAAA n ip6]"
    and "(t6, resp6, ready6) \<in> set msgs"
    and "AAAA n ip6 \<in> set (Answer (msg resp6) @ Extra (msg resp6))"
    and "s' = snd (listen env c finish (arrivals msgs) s)"
  shows "\<exists>p. inprogress s' n = Some p \<and> p < length (heap s') \<and>
           Host (heap s' ! p) = target \<and> Port (heap s' ! p) = uint port \<and>
           Info (heap s' ! p) = Join ts ''|'' \<and> InfoFields (heap s' ! p) = ts \<and>
           hasTXT (heap s' ! p) \<and>
           AddrV4 (heap s' ! p) = ip4 \<and> AddrV6 (heap s' ! p) = ip6 \<and>
           AddrV6IPAddr (heap s' ! p) =
             Some \<lparr>IP = ip6, Zone = (if IsLinkLocalUnicast ip6 \<or> IsLinkLocalMulticast ip6
                                      then udpZone (src resp6) else [])\<rparr>"
proof -
  define rrs where "rrs = all_records msgs"
  define seen where "seen = all_tagged msgs"
  let ?four = "[SRV n target port, TXT n ts, A n ip4, AAAA n ip6]"
  have m: "mset rrs = mset ?four" unfolding rrs_def by (rule assms(2))
  have "set rrs = set ?four" by (rule mset_eq_setD [OF m])
  then have set: "set rrs = {SRV n target port, TXT n ts, A n ip4, AAAA n ip6}" by simp
  have t: "\<forall>r \<in> set rrs. touched r = Some n"
    unfolding set by simp
  have "mset (map kind rrs) = mset (map kind ?four)"
    by (simp only: mset_map m)
  from mset_eq_imp_distinct_iff [OF this] have "distinct (map kind rrs)"
    by simp
  then have d: "distinct (map kind (map snd [] @ rrs))" by simp
  have g0: "gathered n s []" using assms(1) by (simp add: gathered_def)
  have g: "gathered n s' seen"
    using gathered_listen [OF g0 t [unfolded rrs_def] d [unfolded rrs_def], of env c finish]
    by (simp add: assms(5) seen_def)
  have sn: "map snd seen = rrs"
    unfolding seen_def rrs_def by (rule all_tagged_records)
  have in6: "(src resp6, AAAA n ip6) \<in> set seen"
    unfolding seen_def by (rule all_tagged_member [OF assms(3,4)])
  have "seen \<noteq> []" using in6 by auto
  then obtain p where p: "inprogress s' n = Some p" "p < length (heap s')"
    and c: "\<forall>(a, x) \<in> set seen. carried a x (heap s' ! p)"
    using g by (auto simp: gathered_def)
  have ex: "\<exists>a. (a, x) \<in> set seen" if "x \<in> set rrs" for x
    using that unfolding sn [symmetric] by auto
  have c6: "carried (src resp6) (AAAA n ip6) (heap s' ! p)"
    using c in6 by blast
  obtain a1 where "(a1, SRV n target port) \<in> set seen"
    using ex [of "SRV n target port"] unfolding set by auto
  then have c1: "carried a1 (SRV n target port) (heap s' ! p)" using c by blast
  obtain a2 where "(a2, TXT n ts) \<in> set seen"
    using ex [of "TXT n ts"] unfolding set by auto
  then have c2: "carried a2 (TXT n ts) (heap s' ! p)" using c by blast
  obtain a3 where "(a3, A n ip4) \<in> set seen"
    using ex [of "A n ip4"] unfolding set by auto
  then have c3: "carried a3 (A n ip4) (heap s' ! p)" using c by blast
  show ?thesis
    using p c1 c2 c3 c6 by simp
qed

theorem record_fields_any_order_witness:
  "wellformed newCorr \<and>
   mset (all_records
     [(1, \<lparr>msg = newMsg\<lparr>Answer := [AAAA ''node1.local.'' [0xfe, 0x80, 0, 0, 0, 0, 0, 0, 0, 0, 0, 0, 0, 0, 0, 1],
              TXT ''node1.local.'' [''v=1'']]\<rparr>, src = sample_src\<rparr>, True),
      (2, \<lparr>msg = newMsg\<lparr>Answer := [A ''node1.local.'' [10, 0, 0, 5]],
              Extra := [SRV ''node1.local.'' ''host1.local.'' 8080]\<rparr>,
           src = sample_src\<lparr>udpZone := ''eth1''\<rparr>\<rparr>, False)]) =
   mset [SRV ''node1.local.'' ''host1.local.'' 8080, TXT ''node1.local.'' [''v=1''],
     A ''node1.local.'' [10, 0, 0, 5],
     AAAA ''node1.local.'' [0xfe, 0x80, 0, 0, 0, 0, 0, 0, 0, 0, 0, 0, 0, 0, 0, 1]] \<and>
   (\<exists>p. inprogress (snd (listen sample_env sample_client (2 * Second) (arrivals
     [(1, \<lparr>msg = newMsg\<lparr>Answer := [AAAA ''node1.local.'' [0xfe, 0x80, 0, 0, 0, 0, 0, 0, 0, 0, 0, 0, 0, 0, 0, 1],
              TXT ''node1.local.'' [''v=1'']]\<rparr>, src = sample_src\<rparr>, True),
      (2, \<lparr>msg = newMsg\<lparr>Answer := [A ''node1.local.'' [10, 0, 0, 5]],
              Extra := [SRV ''node1.local.'' ''host1.local.'' 8080]\<rparr>,
           src = sample_src\<lparr>udpZone := ''eth1''\<rparr>\<rparr>, False)]) newCorr)) ''node1.local.'' = Some p \<and>
     Host (heap (snd (listen sample_env sample_client (2 * Second) (arrivals
     [(1, \<lparr>msg = newMsg\<lparr>Answer := [AAAA ''node1.local.'' [0xfe, 0x80, 0, 0, 0, 0, 0, 0, 0, 0, 0, 0, 0, 0, 0, 1],
              TXT ''node1.local.'' [''v=1'']]\<rparr>, src = sample_src\<rparr>, True),
      (2, \<lparr>msg = newMsg\<lparr>Answer := [A ''node1.local.'' [10, 0, 0, 5]],
              Extra := [SRV ''node1.local.'' ''host1.local.'' 8080]\<rparr>,
           src = sample_src\<lparr>udpZone := ''eth1''\<rparr>\<rparr>, False)]) newCorr)) ! p) = ''host1.local.'' \<and>
     AddrV4 (heap (snd (listen sample_env sample_client (2 * Second) (arrivals
     [(1, \<lparr>msg = newMsg\<lparr>Answer := [AAAA ''node1.local.'' [0xfe, 0x80, 0, 0, 0, 0, 0, 0, 0, 0, 0, 0, 0, 0, 0, 1],
              TXT ''node1.local.'' [''v=1'']]\<rparr>, src = sample_src\<rparr>, True),
      (2, \<lparr>msg = newMsg\<lparr>Answer := [A ''node1.local.'' [10, 0, 0, 5]],
              Extra := [SRV ''node1.local.'' ''host1.local.'' 8080]\<rparr>,
           src = sample_src\<lparr>udpZone := ''eth1''\<rparr>\<rparr>, False)]) newCorr)) ! p) = [10, 0, 0, 5])"
proof -
  let ?resp1 = "\<lparr>msg = newMsg\<lparr>Answer := [AAAA ''node1.local.'' [0xfe, 0x80, 0, 0, 0, 0, 0, 0, 0, 0, 0, 0, 0, 0, 0, 1],
              TXT ''node1.local.'' [''v=1'']]\<rparr>, src = sample_src\<rparr>"
  let ?msgs = "[(1, ?resp1, True),
      (2, \<lparr>msg = newMsg\<lparr>Answer := [A ''node1.local.'' [10, 0, 0, 5]],
              Extra := [SRV ''node1.local.'' ''host1.local.'' 8080]\<rparr>,
           src = sample_src\<lparr>udpZone := ''eth1''\<rparr>\<rparr>, False)]"
  have m: "mset (all_records ?msgs) =
     mset [SRV ''node1.local.'' ''host1.local.'' 8080, TXT ''node1.local.'' [''v=1''],
       A ''node1.local.'' [10, 0, 0, 5],
       AAAA ''node1.local.'' [0xfe, 0x80, 0, 0, 0, 0, 0, 0, 0, 0, 0, 0, 0, 0, 0, 1]]"
    by (simp add: newMsg_def)
  have i: "(1, ?resp1, True) \<in> set ?msgs" by simp
  have r: "AAAA ''node1.local.'' [0xfe, 0x80, 0, 0, 0, 0, 0, 0, 0, 0, 0, 0, 0, 0, 0, 1]
      \<in> set (Answer (msg ?resp1) @ Extra (msg ?resp1))"
    by simp
  from record_fields_any_order [OF wf_newCorr m i r refl, of sample_env sample_client "2 * Second"]
  show ?thesis using wf_newCorr m by blast
qed

text \<open>
  C1. \<open>QueryContext\<close> hands to \<open>query\<close> the parameter sets it was given: the defaults
  are assigned to the loop's copy of each element only. A parameter set with an empty
  \<open>Domain\<close> and a zero \<open>Timeout\<close> is dispatched as it is: the question built from it
  is for \<open>_http._tcp..\<close>, the codec refuses to pack it, and \<open>QueryContext\<close> returns
  that error with nothing written. Had the defaults been set, the question for
  \<open>_http._tcp.local.\<close> would have gone out on both unicast sockets.
\<close>

theorem QueryContext_leaves_defaults_unset:
  "QueryContext env c params run = query env c params run \<and>
   map qName (Question (build_query (sample_env\<lparr>trimDot := td\<rparr>)
       \<lparr>Service = ''_http._tcp'', Domain = [], Timeout = 0, WantUnicastResponse = False,
          DisableIPv4 = False, DisableIPv6 = False\<rparr>)) =
     [td ''_http._tcp'' @ ''.'' @ td [] @ ''.''] \<and>
   QueryContext sample_env sample_client
       [\<lparr>Service = ''_http._tcp'', Domain = [], Timeout = 0, WantUnicastResponse = False,
          DisableIPv4 = False, DisableIPv6 = False\<rparr>] run =
     (Returned (Some ''dns: bad rdata''), newCorr) \<and>
   map (\<lambda>(l, m). (l, map qName (Question m)))
     (wire (snd (query sample_env sample_client
        [set_defaults \<lparr>Service = ''_http._tcp'', Domain = [], Timeout = 0,
           WantUnicastResponse = False, DisableIPv4 = False, DisableIPv6 = False\<rparr>] []))) =
     [(UDPConn 1, [''_http._tcp.local.'']), (UDPConn 2, [''_http._tcp.local.''])]"
  by (simp add: QueryContext_def range_params_unchanged query_def sendQuery_def
      write_if_open_def build_query_def SetQuestion_def newMsg_def sample_env_def
      sample_client_def newCorr_def trim_dots_def set_defaults_def bad_name_def Let_def)

text \<open>
  C2. With both protocols enabled and all four sockets bound, \<open>newClient\<close> starts
  reader tasks on the two IPv4 sockets only; the two IPv6 sockets of the client are
  open and have no reader.
\<close>

theorem newClient_reads_ipv4_only:
  "newClient sample_env True True =
     Returns (Some sample_client, None, [Some (UDPConn 1), Some (UDPConn 3)]) \<and>
   readers (spawned (newClient sample_env True True)) = [UDPConn 1, UDPConn 3] \<and>
   ipv6UnicastConn sample_client = Some (UDPConn 2) \<and>
   ipv6MulticastConn sample_client = Some (UDPConn 4)"
  by (simp add: newClient_def SetInterface_def on_packet_conn_def sample_env_def
      sample_client_def readers_def spawned_def Let_def)

text \<open>
  C3. Only IPv4 has the check that disables a protocol bound by half. With both
  protocols enabled and only the IPv6 multicast bind failing, \<open>newClient\<close> keeps IPv6
  enabled with its nil multicast socket and panics in \<open>SetInterface\<close>, where the
  claim has it return a client on IPv4 alone. With IPv4 bound on unicast only and IPv6
  on multicast only, no protocol is usable, and \<open>newClient\<close> passes all its error
  checks and panics in the same way instead of returning an error.
\<close>

theorem newClient_panics_on_half_bound_ipv6:
  "newClient (sample_env\<lparr>ListenMulticastUDP :=
       (\<lambda>network. if network = ''udp4'' then Some (UDPConn 3) else None)\<rparr>) True True = Panics \<and>
   newClient (sample_env\<lparr>
       ListenUDP := (\<lambda>network. if network = ''udp4'' then Some (UDPConn 1) else None),
       ListenMulticastUDP :=
         (\<lambda>network. if network = ''udp4'' then None else Some (UDPConn 4))\<rparr>) True True = Panics"
  by (simp add: newClient_def SetInterface_def on_packet_conn_def sample_env_def Let_def)

text \<open>
  C4. \<open>query\<close> arms its timer with two seconds, not with the \<open>Timeout\<close> of the
  parameters: with a timeout of five seconds it has returned nil after two, and with
  the default timeout of one second it is still listening after one. Replacing the
  \<open>Timeout\<close> of every parameter set by any other value changes nothing in what
  \<open>query\<close> does.
\<close>

theorem query_waits_two_seconds:
  "query env c (map (\<lambda>par. par\<lparr>Timeout := d\<rparr>) params) run = query env c params run \<and>
   fst (query sample_env sample_client [(DefaultParams ''_http._tcp'')\<lparr>Timeout := 5 * Second\<rparr>]
          [(2 * Second, FromFinish)]) = Returned None \<and>
   fst (query sample_env sample_client [DefaultParams ''_http._tcp'']
          [(Second, FromFinish)]) = Listening"
  by (simp add: query_def send_queries_ignore_Timeout sendQuery_def write_if_open_def
      build_query_def SetQuestion_def newMsg_def DefaultParams_def trim_dots_def
      bad_name_def sample_env_def sample_client_def Second_def Let_def)

end
